theory Spec2Isabelle
  imports Complex_Main
begin

section \<open>Strings and code points\<close>

text \<open>
  A JavaScript string is a sequence of UTF-16 code units; \<open>s[i]\<close>, \<open>s.length\<close>,
  \<open>s.charCodeAt(i)\<close> and \<open>s.slice\<close> all count code units. A code unit is modelled
  by its numeric value.
\<close>

type_synonym jschar = nat
type_synonym jsstring = "jschar list"

text \<open>\<open>s.slice(a, b)\<close> for indices \<open>0 \<le> a\<close>, \<open>0 \<le> b\<close>.\<close>

definition slice :: "jsstring \<Rightarrow> nat \<Rightarrow> nat \<Rightarrow> jsstring" where
  "slice s a b = take (b - a) (drop a s)"

text \<open>An ASCII literal of the source as a sequence of code units.\<close>

definition js :: "string \<Rightarrow> jsstring" where
  "js s = map of_char s"

section \<open>KhmerNormalizer\<close>

datatype char_type = BASE | COENG | REGISTER | VOWEL | SIGN | OTHER

text \<open>\<open>range(start, end)\<close> is \<open>start, ..., end - 1\<close>; the sets are built from it.\<close>

definition CONSONANTS :: "nat set" where "CONSONANTS = {0x1780 ..< 0x17A3}"
definition INDEP_VOWELS :: "nat set" where "INDEP_VOWELS = {0x17A3 ..< 0x17B4}"
definition DEP_VOWELS :: "nat set" where "DEP_VOWELS = {0x17B6 ..< 0x17C6}"
definition SIGNS :: "nat set" where "SIGNS = {0x17C6 ..< 0x17D4}"
definition REGISTERS :: "nat set" where "REGISTERS = {0x17C9, 0x17CA}"
definition COENG_code :: nat where "COENG_code = 0x17D2"
definition RO :: nat where "RO = 0x179A"

definition get_char_type :: "jschar \<Rightarrow> char_type" where
  "get_char_type code =
     (if code \<in> CONSONANTS \<or> code \<in> INDEP_VOWELS then BASE
      else if code = COENG_code then COENG
      else if code \<in> REGISTERS then REGISTER
      else if code \<in> DEP_VOWELS then VOWEL
      else if code \<in> SIGNS \<or> code = 0x17DD then SIGN
      else OTHER)"

text \<open>
  The comparator's \<open>getPriority\<close>. An item is a subscript unit (two code units), a stray
  coeng or a single modifier. \<open>charCodeAt(0)\<close> of an empty item is NaN, which is in no set.
\<close>

definition getPriority :: "jsstring \<Rightarrow> real" where
  "getPriority item =
     (if take 1 item = [0x17D2] then
        (if length item = 2 then (if item ! 1 = RO then 2 else 1) else 3 / 2)
      else (case item of
              [] \<Rightarrow> 5
            | code # _ \<Rightarrow>
                if code \<in> REGISTERS then 5 / 2
                else if code \<in> DEP_VOWELS then 3
                else if code \<in> SIGNS \<or> code = 0x17DD then 4
                else 5))"

text \<open>\<open>Array.prototype.sort\<close> is stable, as is \<open>sort_key\<close>.\<close>

definition sort_cluster :: "jsstring list \<Rightarrow> jsstring" where
  "sort_cluster parts =
     (case parts of
        [] \<Rightarrow> []
      | base # modifiers \<Rightarrow> base @ concat (sort_key getPriority modifiers))"

text \<open>
  \<open>text.replace(pat, rep)\<close> with a string pattern: only the first occurrence is replaced.
\<close>

fun replace_first :: "jsstring \<Rightarrow> jsstring \<Rightarrow> jsstring \<Rightarrow> jsstring" where
  "replace_first pat rep [] = (if pat = [] then rep else [])"
| "replace_first pat rep (c # cs) =
     (if take (length pat) (c # cs) = pat then rep @ drop (length pat) (c # cs)
      else c # replace_first pat rep cs)"

text \<open>
  The \<open>while (i < n)\<close> scan of \<open>normalize\<close>, on the text that remains from index \<open>i\<close>;
  the state is \<open>result\<close> and \<open>current_cluster\<close>.
\<close>

fun cluster_loop ::
  "jsstring \<Rightarrow> jsstring list \<Rightarrow> jsstring list \<Rightarrow> jsstring list \<times> jsstring list" where
  "cluster_loop [] result current_cluster = (result, current_cluster)"
| "cluster_loop (c # rest) result current_cluster =
     (case get_char_type c of
        BASE \<Rightarrow>
          (if current_cluster \<noteq> []
           then cluster_loop rest (result @ [sort_cluster current_cluster]) [[c]]
           else cluster_loop rest result [[c]])
      | COENG \<Rightarrow>
          (case rest of
             [] \<Rightarrow> cluster_loop rest result (current_cluster @ [[c]])
           | next_char # rest' \<Rightarrow>
               if get_char_type next_char = BASE
               then cluster_loop rest' result (current_cluster @ [[c, next_char]])
               else cluster_loop rest result (current_cluster @ [[c]]))
      | OTHER \<Rightarrow>
          (if current_cluster \<noteq> []
           then cluster_loop rest (result @ [sort_cluster current_cluster, [c]]) []
           else cluster_loop rest (result @ [[c]]) [])
      | _ \<Rightarrow>
          (if current_cluster \<noteq> []
           then cluster_loop rest result (current_cluster @ [[c]])
           else cluster_loop rest (result @ [[c]]) []))"

definition strip_zw :: "jsstring \<Rightarrow> jsstring" where
  "strip_zw text = filter (\<lambda>c. c \<noteq> 0x200b \<and> c \<noteq> 0x200c \<and> c \<noteq> 0x200d) text"

definition normalize_khmer :: "jsstring \<Rightarrow> jsstring" where
  "normalize_khmer text =
     (if text = [] then []
      else
        let text0 = strip_zw text;
            text1 = replace_first [0x17C1, 0x17B8] [0x17BE] text0;
            text2 = replace_first [0x17C1, 0x17B6] [0x17C4] text1;
            (result, current_cluster) = cluster_loop text2 [] [];
            result' = (if current_cluster \<noteq> []
                       then result @ [sort_cluster current_cluster] else result)
        in concat result')"

text \<open>\<open>s.includes(pat)\<close> for a two-unit pattern.\<close>

fun has_pair :: "jschar \<Rightarrow> jschar \<Rightarrow> jsstring \<Rightarrow> bool" where
  "has_pair a b (x # y # rest) = ((x = a \<and> y = b) \<or> has_pair a b (y # rest))"
| "has_pair a b _ = False"

section \<open>KhmerSegmenter\<close>

subsection \<open>Rules as data\<close>

text \<open>
  A rule of \<open>rules.json\<close>. \<open>priority\<close>, \<open>checks\<close>, \<open>exists\<close>, \<open>check\<close> and \<open>value\<close>
  may be absent. \<open>regexObj\<close> is the field that \<open>_compileRules\<close> adds to a regex trigger;
  a compiled regular expression is modelled by its \<open>test\<close> function.
\<close>

datatype jsval = JUndefined | JBool bool | JOther bool

text \<open>Truthiness of a JSON value; \<open>JOther t\<close> is any non-boolean value with truthiness \<open>t\<close>.\<close>

fun truthy :: "jsval \<Rightarrow> bool" where
  "truthy JUndefined = False"
| "truthy (JBool b) = b"
| "truthy (JOther t) = t"

record trigger =
  t_type :: string
  t_value :: jsstring
  regexObj :: "(jsstring \<Rightarrow> bool) option"

record rule_check =
  c_target :: string
  c_exists :: bool
  c_check :: "string option"
  c_value :: jsval

record rule =
  name :: string
  priority :: "int option"
  trigger :: trigger
  checks :: "rule_check list"
  action :: string

subsection \<open>The segmenter object\<close>

text \<open>
  The fields of a constructed \<open>KhmerSegmenter\<close>; \<open>rules\<close> is the compiled list held by
  its rule engine. \<open>unicodeSep\<close> is not a field of the class: it stands for the engine's
  Unicode tables, true of a code unit when \<open>/\<bsol>p{P}|\<bsol>p{S}|\<bsol>p{Z}/u\<close> or \<open>/\<bsol>s/\<close> matches the
  one-unit string. Costs are IEEE doubles in the source and real numbers here.
\<close>

record segmenter =
  words :: "jsstring set"
  maxWordLength :: nat
  wordCosts :: "jsstring \<rightharpoonup> real"
  defaultCost :: real
  unknownCost :: real
  rules :: "rule list"
  unicodeSep :: "jschar \<Rightarrow> bool"

subsection \<open>Character predicates\<close>

text \<open>
  The predicates read \<open>charCodeAt(0)\<close> of their argument, which is NaN for the empty
  string, so every range test fails there.
\<close>

definition isValidSingleBaseChar :: "jsstring \<Rightarrow> bool" where
  "isValidSingleBaseChar char =
     (case char of
        [] \<Rightarrow> False
      | code # _ \<Rightarrow>
          if 0x1780 \<le> code \<and> code \<le> 0x17A2 then True
          else if 0x17A3 \<le> code \<and> code \<le> 0x17B3 then True
          else False)"

definition isKhmerChar :: "jsstring \<Rightarrow> bool" where
  "isKhmerChar char =
     (case char of
        [] \<Rightarrow> False
      | code # _ \<Rightarrow> (0x1780 \<le> code \<and> code \<le> 0x17FF) \<or> (0x19E0 \<le> code \<and> code \<le> 0x19FF))"

text \<open>
  \<open>_isDigit\<close> is only ever called on one code unit (\<open>text[i]\<close>, \<open>seg[0]\<close>, or a segment
  of length 1); it is modelled on the code unit. Where the index may be out of range the
  caller models the TypeError of \<open>undefined.length\<close>.
\<close>

definition isDigit :: "jschar \<Rightarrow> bool" where
  "isDigit code = ((0x30 \<le> code \<and> code \<le> 0x39) \<or> (0x17E0 \<le> code \<and> code \<le> 0x17E9))"

definition isSeparator :: "segmenter \<Rightarrow> jsstring \<Rightarrow> bool" where
  "isSeparator s char =
     (case char of
        [code] \<Rightarrow>
          if 0x17D4 \<le> code \<and> code \<le> 0x17DA then True
          else if code = 0x17DB then True
          else unicodeSep s code
      | _ \<Rightarrow> False)"

definition isInvalidSingle :: "segmenter \<Rightarrow> jsstring \<Rightarrow> bool" where
  "isInvalidSingle s seg =
     (if length seg \<noteq> 1 then False
      else if \<not> isKhmerChar seg then False
      else if isValidSingleBaseChar seg then False
      else if isDigit (seg ! 0) then False
      else if isSeparator s seg then False
      else if seg \<in> words s then False
      else True)"

definition getWordCost :: "segmenter \<Rightarrow> jsstring \<Rightarrow> real" where
  "getWordCost s word =
     (case wordCosts s word of
        Some c \<Rightarrow> c
      | None \<Rightarrow> if word \<in> words s then defaultCost s else unknownCost s)"

subsection \<open>Scanners\<close>

text \<open>The \<open>while (i < n)\<close> loop of \<open>_getKhmerClusterLength\<close>, from index \<open>i\<close>.\<close>

function cluster_scan :: "jsstring \<Rightarrow> nat \<Rightarrow> nat" where
  "cluster_scan text i =
     (if i < length text then
        (if text ! i = 0x17D2 then
           (if i + 1 < length text \<and> 0x1780 \<le> text ! (i + 1) \<and> text ! (i + 1) \<le> 0x17A2
            then cluster_scan text (i + 2)
            else i)
         else if (0x17B6 \<le> text ! i \<and> text ! i \<le> 0x17D1) \<or> text ! i = 0x17D3 \<or> text ! i = 0x17DD
           then cluster_scan text (i + 1)
         else i)
      else i)"
  by pat_completeness auto
termination
  by (relation "measure (\<lambda>(text, i). length text - i)") auto

definition getKhmerClusterLength :: "jsstring \<Rightarrow> nat \<Rightarrow> nat" where
  "getKhmerClusterLength text startIndex =
     (if startIndex \<ge> length text then 0
      else if \<not> (0x1780 \<le> text ! startIndex \<and> text ! startIndex \<le> 0x17B3) then 1
      else cluster_scan text (startIndex + 1) - startIndex)"

text \<open>The loop of \<open>_getNumberLength\<close>; the function is called where \<open>text[startIndex]\<close> exists.\<close>

function number_scan :: "jsstring \<Rightarrow> nat \<Rightarrow> nat" where
  "number_scan text i =
     (if i < length text then
        (if isDigit (text ! i) then number_scan text (i + 1)
         else if text ! i = 0x2C \<or> text ! i = 0x2E then
           (if i + 1 < length text \<and> isDigit (text ! (i + 1))
            then number_scan text (i + 2)
            else i)
         else i)
      else i)"
  by pat_completeness auto
termination
  by (relation "measure (\<lambda>(text, i). length text - i)") auto

definition getNumberLength :: "jsstring \<Rightarrow> nat \<Rightarrow> nat" where
  "getNumberLength text startIndex =
     (if \<not> isDigit (text ! startIndex) then 0
      else number_scan text (startIndex + 1) - startIndex)"

definition isAcronymStart :: "jsstring \<Rightarrow> nat \<Rightarrow> bool" where
  "isAcronymStart text index =
     (if index + 1 \<ge> length text then False
      else if \<not> (0x1780 \<le> text ! index \<and> text ! index \<le> 0x17B3) then False
      else if getKhmerClusterLength text index = 0 then False
      else if index + getKhmerClusterLength text index < length text
               \<and> text ! (index + getKhmerClusterLength text index) = 0x2E then True
      else False)"

text \<open>The loop of \<open>_getAcronymLength\<close>.\<close>

function acronym_scan :: "jsstring \<Rightarrow> nat \<Rightarrow> nat" where
  "acronym_scan text i =
     (if i < length text then
        (if \<not> (0x1780 \<le> text ! i \<and> text ! i \<le> 0x17B3) then i
         else if getKhmerClusterLength text i > 0 then
           (if i + getKhmerClusterLength text i < length text
               \<and> text ! (i + getKhmerClusterLength text i) = 0x2E
            then acronym_scan text (i + getKhmerClusterLength text i + 1)
            else i)
         else i)
      else i)"
  by pat_completeness auto
termination
  by (relation "measure (\<lambda>(text, i). length text - i)") auto

definition getAcronymLength :: "jsstring \<Rightarrow> nat \<Rightarrow> nat" where
  "getAcronymLength text startIndex = acronym_scan text startIndex - startIndex"

subsection \<open>The DP table\<close>

datatype error = TypeError

text \<open>
  A cell \<open>dp[k] = [cost, prev]\<close>. The cost is \<open>Infinity\<close> or a finite number; \<open>prev\<close> is
  \<open>-1\<close> (\<open>None\<close>) or a loop index.
\<close>

datatype cost = Fin real | Infinity

type_synonym cell = "cost \<times> nat option"

text \<open>\<open>newCost < dp[j][0]\<close> for a finite \<open>newCost\<close>.\<close>

fun cost_less :: "real \<Rightarrow> cost \<Rightarrow> bool" where
  "cost_less c Infinity = True"
| "cost_less c (Fin d) = (c < d)"

definition init_dp :: "nat \<Rightarrow> cell list" where
  "init_dp n = (Fin 0, None) # replicate n (Infinity, None)"

text \<open>\<open>forceRepair\<close> at position \<open>i\<close>: the previous unit is a coeng, or this one is a dependent vowel.\<close>

definition forceRepair :: "jsstring \<Rightarrow> nat \<Rightarrow> bool" where
  "forceRepair text i =
     ((i > 0 \<and> text ! (i - 1) = 0x17D2) \<or> (0x17B6 \<le> text ! i \<and> text ! i \<le> 0x17C5))"

text \<open>The dictionary loop \<open>for (j = i + 1; j <= endLimit; j++)\<close> of position \<open>i\<close>.\<close>

definition dict_matches :: "segmenter \<Rightarrow> jsstring \<Rightarrow> nat \<Rightarrow> (nat \<times> real \<times> bool) list" where
  "dict_matches s text i =
     map (\<lambda>j. (j, getWordCost s (slice text i j), False))
       (filter (\<lambda>j. slice text i j \<in> words s)
          [i + 1 ..< Suc (min (length text) (i + maxWordLength s))])"

text \<open>
  The body of the main loop at a reachable position \<open>i\<close> relaxes one cell per applicable
  transition, always by the same three lines. \<open>proposals\<close> lists the transitions of position
  \<open>i\<close> in the order of the source: the target index \<open>nextIdx\<close>, the \<open>stepCost\<close>, and whether
  the source guards the relaxation by \<open>nextIdx <= n\<close>.
\<close>

definition proposals :: "segmenter \<Rightarrow> jsstring \<Rightarrow> nat \<Rightarrow> (nat \<times> real \<times> bool) list" where
  "proposals s text i =
     (if forceRepair text i then [(i + 1, unknownCost s + 50, True)]
      else
        (if isDigit (text ! i) then [(i + getNumberLength text i, 1, False)]
         else if isSeparator s [text ! i] then [(i + 1, 1 / 10, False)]
         else [])
        @ (if isAcronymStart text i then [(i + getAcronymLength text i, defaultCost s, False)]
           else [])
        @ dict_matches s text i
        @ (if isKhmerChar [text ! i] then
             [(i + getKhmerClusterLength text i,
               (if getKhmerClusterLength text i = 1 \<and> \<not> isValidSingleBaseChar [text ! i]
                then unknownCost s + 10 else unknownCost s),
               True)]
           else [(i + 1, unknownCost s, True)]))"

text \<open>
  One relaxation from position \<open>i\<close>. An unguarded read of \<open>dp[nextIdx][0]\<close> beyond the table
  is a TypeError. \<open>Infinity + stepCost\<close> is less than nothing.
\<close>

definition relax :: "nat \<Rightarrow> nat \<Rightarrow> cell list \<Rightarrow> nat \<times> real \<times> bool \<Rightarrow> error + cell list" where
  "relax n i dp p =
     (case p of (nextIdx, stepCost, guarded) \<Rightarrow>
        if guarded \<and> \<not> nextIdx \<le> n then Inr dp
        else if \<not> nextIdx < length dp then Inl TypeError
        else (case fst (dp ! i) of
                Infinity \<Rightarrow> Inr dp
              | Fin c \<Rightarrow>
                  if cost_less (c + stepCost) (fst (dp ! nextIdx))
                  then Inr (dp[nextIdx := (Fin (c + stepCost), Some i)])
                  else Inr dp))"

fun relax_all :: "nat \<Rightarrow> nat \<Rightarrow> cell list \<Rightarrow> (nat \<times> real \<times> bool) list \<Rightarrow> error + cell list" where
  "relax_all n i dp [] = Inr dp"
| "relax_all n i dp (p # ps) =
     (case relax n i dp p of
        Inl e \<Rightarrow> Inl e
      | Inr dp' \<Rightarrow> relax_all n i dp' ps)"

definition dp_step :: "segmenter \<Rightarrow> jsstring \<Rightarrow> nat \<Rightarrow> cell list \<Rightarrow> error + cell list" where
  "dp_step s text i dp =
     (if fst (dp ! i) = Infinity then Inr dp
      else relax_all (length text) i dp (proposals s text i))"

text \<open>The loop \<open>for (i = 0; i < n; i++)\<close>, over the indices still to visit.\<close>

fun dp_loop :: "segmenter \<Rightarrow> jsstring \<Rightarrow> nat list \<Rightarrow> cell list \<Rightarrow> error + cell list" where
  "dp_loop s text [] dp = Inr dp"
| "dp_loop s text (i # rest) dp =
     (case dp_step s text i dp of
        Inl e \<Rightarrow> Inl e
      | Inr dp' \<Rightarrow> dp_loop s text rest dp')"

definition run_dp :: "segmenter \<Rightarrow> jsstring \<Rightarrow> error + cell list" where
  "run_dp s text = dp_loop s text [0 ..< length text] (init_dp (length text))"

text \<open>
  The backtrack \<open>while (curr > 0)\<close>, with \<open>k\<close> for \<open>curr\<close>. Nothing in the loop itself
  bounds \<open>prev\<close>, so the model allows it not to return (\<open>None\<close>); reading \<open>dp[curr]\<close>
  beyond the table is a TypeError of the destructuring.
\<close>

partial_function (option) backtrack ::
  "cell list \<Rightarrow> jsstring \<Rightarrow> nat \<Rightarrow> jsstring list \<Rightarrow> (error + jsstring list) option" where
  "backtrack dp text k segments =
     (if k > 0 then
        (if k < length dp then
           (case snd (dp ! k) of
              None \<Rightarrow> backtrack dp text (k - 1) (segments @ [slice text (k - 1) k])
            | Some prev \<Rightarrow> backtrack dp text prev (segments @ [slice text prev k]))
         else Some (Inl TypeError))
      else Some (Inr segments))"

declare backtrack.simps [code]

subsection \<open>RuleBasedEngine\<close>

text \<open>
  \<open>_compileRules\<close>. \<open>mkRegExp\<close> stands for the engine's \<open>new RegExp(pattern)\<close>: \<open>None\<close> when
  it throws. The sort is stable and descending by \<open>priority || 0\<close>.
\<close>

definition prio :: "rule \<Rightarrow> int" where
  "prio r = (case priority r of None \<Rightarrow> 0 | Some p \<Rightarrow> p)"

fun compile_loop ::
  "(jsstring \<Rightarrow> (jsstring \<Rightarrow> bool) option) \<Rightarrow> rule list \<Rightarrow> rule list \<Rightarrow> rule list" where
  "compile_loop mkRegExp [] compiledRules = compiledRules"
| "compile_loop mkRegExp (r # rest) compiledRules =
     (if t_type (trigger r) = ''regex'' then
        (case mkRegExp (if take 1 (t_value (trigger r)) = [0x5E] then t_value (trigger r)
                        else 0x5E # t_value (trigger r)) of
           None \<Rightarrow> compile_loop mkRegExp rest compiledRules
         | Some re \<Rightarrow>
             compile_loop mkRegExp rest
               (compiledRules @ [r\<lparr>trigger := (trigger r)\<lparr>regexObj := Some re\<rparr>\<rparr>]))
      else compile_loop mkRegExp rest (compiledRules @ [r]))"

definition compileRules ::
  "(jsstring \<Rightarrow> (jsstring \<Rightarrow> bool) option) \<Rightarrow> rule list \<Rightarrow> rule list" where
  "compileRules mkRegExp rs = compile_loop mkRegExp (sort_key (\<lambda>r. - prio r) rs) []"

text \<open>Step 1 of the rule loop: does the trigger match the segment?\<close>

definition trigger_match :: "segmenter \<Rightarrow> trigger \<Rightarrow> jsstring \<Rightarrow> bool" where
  "trigger_match s t seg =
     (if t_type t = ''exact_match'' then seg = t_value t
      else if t_type t = ''regex'' then
        (case regexObj t of None \<Rightarrow> False | Some re \<Rightarrow> re seg)
      else if t_type t = ''complexity_check'' then
        (t_value t = js ''is_invalid_single'' \<and> isInvalidSingle s seg)
      else False)"

text \<open>Step 2: one check of a rule at index \<open>i\<close>; \<open>True\<close> when it does not fail the rule.\<close>

definition check_passes :: "segmenter \<Rightarrow> nat \<Rightarrow> jsstring list \<Rightarrow> rule_check \<Rightarrow> bool" where
  "check_passes s i segments c =
     (let targetSeg =
            (if c_target c = ''prev'' then (if i > 0 then Some (segments ! (i - 1)) else None)
             else if c_target c = ''next''
               then (if i + 1 < length segments then Some (segments ! (i + 1)) else None)
             else if c_target c = ''context'' \<or> c_target c = ''current'' then Some (segments ! i)
             else None)
      in if c_exists c \<and> targetSeg = None then False
         else (case targetSeg of
                 None \<Rightarrow> \<not> ((c_check c \<noteq> None \<and> c_check c \<noteq> Some []) \<or> truthy (c_value c))
               | Some t \<Rightarrow>
                   if c_check c = Some ''is_separator'' then JBool (isSeparator s t) = c_value c
                   else if c_check c = Some ''is_isolated'' then
                     JBool ((if i > 0 then isSeparator s (segments ! (i - 1)) else True)
                            \<and> (if i + 1 < length segments then isSeparator s (segments ! (i + 1))
                               else True)) = c_value c
                   else True))"

definition conditionsMet :: "segmenter \<Rightarrow> rule_check list \<Rightarrow> nat \<Rightarrow> jsstring list \<Rightarrow> bool" where
  "conditionsMet s cs i segments = list_all (check_passes s i segments) cs"

text \<open>
  The loop \<open>for (const rule of this.rules)\<close> at index \<open>i\<close>: \<open>Some (i', segments')\<close> when a
  rule was applied (\<open>ruleApplied = true; break\<close>), \<open>None\<close> when the loop ran out of rules.
  \<open>segments.splice(k, 1)\<close> removes the element at \<open>k\<close>.
\<close>

fun try_rules ::
  "segmenter \<Rightarrow> rule list \<Rightarrow> nat \<Rightarrow> jsstring list \<Rightarrow> (nat \<times> jsstring list) option" where
  "try_rules s [] i segments = None"
| "try_rules s (r # rest) i segments =
     (if \<not> trigger_match s (trigger r) (segments ! i) then try_rules s rest i segments
      else if \<not> conditionsMet s (checks r) i segments then try_rules s rest i segments
      else if action r = ''merge_next'' then
        (if i + 1 < length segments
         then Some (i, take (i + 1) (segments[i := segments ! i @ segments ! (i + 1)])
                       @ drop (i + 2) segments)
         else try_rules s rest i segments)
      else if action r = ''merge_prev'' then
        (if i > 0
         then Some (i - 1, take i (segments[i - 1 := segments ! (i - 1) @ segments ! i])
                           @ drop (i + 1) segments)
         else try_rules s rest i segments)
      else if action r = ''keep'' then Some (i + 1, segments)
      else try_rules s rest i segments)"

text \<open>The loop \<open>while (i < segments.length)\<close> of \<open>applyRules\<close>; \<open>None\<close> if it does not return.\<close>

partial_function (option) applyRules_loop ::
  "segmenter \<Rightarrow> nat \<Rightarrow> jsstring list \<Rightarrow> jsstring list option" where
  "applyRules_loop s i segments =
     (if i < length segments then
        (case try_rules s (rules s) i segments of
           Some (i', segments') \<Rightarrow> applyRules_loop s i' segments'
         | None \<Rightarrow> applyRules_loop s (i + 1) segments)
      else Some segments)"

declare applyRules_loop.simps [code]

definition applyRules :: "segmenter \<Rightarrow> jsstring list \<Rightarrow> jsstring list option" where
  "applyRules s segments = applyRules_loop s 0 segments"

subsection \<open>The unknown grouper and \<open>segment\<close>\<close>

text \<open>
  The loop \<open>for (const seg of pass2Segments)\<close> with its state \<open>finalSegments\<close> and
  \<open>unknownBuffer\<close>. \<open>this._isDigit(seg[0])\<close> is a TypeError on an empty segment. The buffer
  only ever holds segments that passed that test, so \<open>lastChar\<close> exists.
\<close>

definition isKnown :: "segmenter \<Rightarrow> jsstring \<Rightarrow> bool" where
  "isKnown s seg =
     (if isDigit (seg ! 0) then True
      else if seg \<in> words s then True
      else if length seg = 1 \<and> isValidSingleBaseChar seg then True
      else if isSeparator s seg then True
      else if 0x2E \<in> set seg \<and> length seg \<ge> 2 then True
      else False)"

fun group_loop ::
  "segmenter \<Rightarrow> jsstring list \<Rightarrow> jsstring list \<Rightarrow> jsstring list
     \<Rightarrow> error + (jsstring list \<times> jsstring list)" where
  "group_loop s [] finalSegments unknownBuffer = Inr (finalSegments, unknownBuffer)"
| "group_loop s (seg # rest) finalSegments unknownBuffer =
     (if seg = [] then Inl TypeError
      else if isKnown s seg then
        (if unknownBuffer \<noteq> []
         then group_loop s rest (finalSegments @ [concat unknownBuffer, seg]) []
         else group_loop s rest (finalSegments @ [seg]) [])
      else if unknownBuffer \<noteq> []
              \<and> isKhmerChar (take 1 (last unknownBuffer)) \<noteq> isKhmerChar (take 1 seg)
        then group_loop s rest (finalSegments @ [concat unknownBuffer]) [seg]
      else group_loop s rest finalSegments (unknownBuffer @ [seg]))"

definition group_unknowns :: "segmenter \<Rightarrow> jsstring list \<Rightarrow> error + jsstring list" where
  "group_unknowns s pass2Segments =
     (case group_loop s pass2Segments [] [] of
        Inl e \<Rightarrow> Inl e
      | Inr (finalSegments, unknownBuffer) \<Rightarrow>
          Inr (if unknownBuffer \<noteq> [] then finalSegments @ [concat unknownBuffer]
               else finalSegments))"

text \<open>
  \<open>segment(text, disablePostProcessing)\<close>: \<open>None\<close> if a loop does not return,
  \<open>Some (Inl e)\<close> if an exception leaves the function, \<open>Some (Inr tokens)\<close> otherwise.
\<close>

definition segment :: "segmenter \<Rightarrow> jsstring \<Rightarrow> bool \<Rightarrow> (error + jsstring list) option" where
  "segment s text0 disablePostProcessing =
     (let text = normalize_khmer text0; n = length text
      in if n = 0 then Some (Inr [])
         else (case run_dp s text of
                 Inl e \<Rightarrow> Some (Inl e)
               | Inr dp \<Rightarrow>
                   (case backtrack dp text n [] of
                      None \<Rightarrow> None
                    | Some (Inl e) \<Rightarrow> Some (Inl e)
                    | Some (Inr segments) \<Rightarrow>
                        if disablePostProcessing then Some (Inr (rev segments))
                        else (case applyRules s (rev segments) of
                                None \<Rightarrow> None
                              | Some pass2Segments \<Rightarrow> Some (group_unknowns s pass2Segments)))))"

text \<open>\<open>isUnknown(word)\<close>; \<open>!word\<close> is true of the empty string.\<close>

definition isUnknown :: "segmenter \<Rightarrow> jsstring \<Rightarrow> bool" where
  "isUnknown s word =
     (if word = [] then False
      else if word \<in> words s then False
      else if isDigit (word ! 0) then False
      else if isSeparator s word then False
      else if length word = 1 \<and> isValidSingleBaseChar word then False
      else if 0x2E \<in> set word \<and> length word \<ge> 2 then False
      else True)"

subsection \<open>The known-token predicate as the specification words it\<close>

text \<open>
  The five conditions under which the specification calls a token known, in its words:
  in the dictionary, starting with a digit, a single separator, a single valid base,
  or containing a full stop with length at least 2.
\<close>

definition known_by_spec :: "segmenter \<Rightarrow> jsstring \<Rightarrow> bool" where
  "known_by_spec s w =
     (w \<in> words s
      \<or> (case w of [] \<Rightarrow> False | c # _ \<Rightarrow> isDigit c)
      \<or> isSeparator s w
      \<or> (length w = 1 \<and> isValidSingleBaseChar w)
      \<or> (0x2E \<in> set w \<and> length w \<ge> 2))"

subsection \<open>Sample objects\<close>

text \<open>
  A small segmenter for evaluating the definitions: one dictionary word (U+1780 U+17B6),
  the default costs of the constructor, no rules, and space, comma and full stop as the
  only characters the Unicode tables call separators.
\<close>

definition ascii_sep :: "jschar \<Rightarrow> bool" where
  "ascii_sep code = (code \<in> {0x20, 0x2C, 0x2E})"

definition sample_segmenter :: segmenter where
  "sample_segmenter =
     \<lparr>words = {[0x1780, 0x17B6]}, maxWordLength = 2, wordCosts = Map.empty,
      defaultCost = 10, unknownCost = 20, rules = [], unicodeSep = ascii_sep\<rparr>"

text \<open>A rule whose trigger type is none of the three the engine knows.\<close>

definition unknown_type_rule :: rule where
  "unknown_type_rule =
     \<lparr>name = ''fuzzy'', priority = None,
      trigger = \<lparr>t_type = ''fuzzy_match'', t_value = [], regexObj = None\<rparr>,
      checks = [], action = ''keep''\<rparr>"

subsection \<open>Covers and the invariant of the DP loop\<close>

text \<open>
  A cover of \<open>str[0..k)\<close> composed from the transitions the loop proposes: the tokens in
  order and the total step cost, summed in the order of the positions.
\<close>

inductive cover :: "segmenter \<Rightarrow> jsstring \<Rightarrow> nat \<Rightarrow> jsstring list \<Rightarrow> real \<Rightarrow> bool"
  for s :: segmenter and str :: jsstring where
  cover_start: "cover s str 0 [] 0"
| cover_step:
    "cover s str i toks c \<Longrightarrow> i < length str \<Longrightarrow> (j, d, g) \<in> set (proposals s str i)
       \<Longrightarrow> cover s str j (toks @ [slice str i j]) (c + d)"

text \<open>\<open>fin_le dp k x\<close>: the cost of cell \<open>k\<close> is finite and at most \<open>x\<close>.\<close>

definition fin_le :: "cell list \<Rightarrow> nat \<Rightarrow> real \<Rightarrow> bool" where
  "fin_le dp k x = (case fst (dp ! k) of Infinity \<Rightarrow> False | Fin c \<Rightarrow> c \<le> x)"

text \<open>
  Before the loop visits position \<open>i\<close>: cell 0 is the start; every other cell is either
  untouched or was relaxed from a position \<open>p < i\<close>, whose cost has not changed since, along
  a transition of \<open>p\<close>.
\<close>

definition tree_ok :: "segmenter \<Rightarrow> jsstring \<Rightarrow> nat \<Rightarrow> cell list \<Rightarrow> bool" where
  "tree_ok s text i dp =
     (length dp = Suc (length text) \<and> dp ! 0 = (Fin 0, None)
      \<and> (\<forall>k. 0 < k \<and> k \<le> length text \<longrightarrow>
            dp ! k = (Infinity, None)
            \<or> (\<exists>p cp d g. dp ! k = (Fin (cp + d), Some p) \<and> p < k \<and> p < i
                  \<and> fst (dp ! p) = Fin cp \<and> (k, d, g) \<in> set (proposals s text p))))"

text \<open>Every transition of a reachable position below \<open>i\<close> has been relaxed.\<close>

definition bellman :: "segmenter \<Rightarrow> jsstring \<Rightarrow> nat \<Rightarrow> cell list \<Rightarrow> bool" where
  "bellman s text i dp =
     (\<forall>p k d g cp. p < i \<and> fst (dp ! p) = Fin cp \<and> (k, d, g) \<in> set (proposals s text p)
         \<longrightarrow> fin_le dp k (cp + d))"

subsection \<open>Variants and frequencies\<close>

















section \<open>Normalizer: composite fusion and idempotence\<close>

lemmas khmer_sets =
  CONSONANTS_def INDEP_VOWELS_def DEP_VOWELS_def SIGNS_def REGISTERS_def COENG_code_def RO_def

text \<open>
  \<open>normalize_khmer\<close> is \<open>KhmerNormalizer.normalize\<close>. Two split vowels in one text:
  the string-pattern \<open>replace\<close> fuses the first pair only, and the cluster pass emits the
  second pair as it stands.
\<close>

lemma normalize_two_pairs:
  "normalize_khmer [0x17C1, 0x17B8, 0x17C1, 0x17B8] = [0x17BE, 0x17C1, 0x17B8]"
  by (simp add: normalize_khmer_def strip_zw_def get_char_type_def khmer_sets)

lemma normalize_two_pairs_again:
  "normalize_khmer [0x17BE, 0x17C1, 0x17B8] = [0x17BE, 0x17BE]"
  by (simp add: normalize_khmer_def strip_zw_def get_char_type_def khmer_sets)

text \<open>
  C4. The claim is that normalizing twice gives the same text as normalizing once. On the
  text U+17C1 U+17B8 U+17C1 U+17B8 the first call fuses one pair and the second call fuses
  the other, so the two results differ.
\<close>

theorem normalize_not_idempotent:
  "normalize_khmer (normalize_khmer [0x17C1, 0x17B8, 0x17C1, 0x17B8])
     \<noteq> normalize_khmer [0x17C1, 0x17B8, 0x17C1, 0x17B8]"
  by (simp add: normalize_two_pairs normalize_two_pairs_again)

text \<open>
  C5. The claim is that no normalized text contains the pair U+17C1 U+17B8. The normalized
  form of U+17C1 U+17B8 U+17C1 U+17B8 still contains it.
\<close>

theorem normalize_keeps_split_vowel:
  "has_pair 0x17C1 0x17B8 (normalize_khmer [0x17C1, 0x17B8, 0x17C1, 0x17B8])"
  by (simp add: normalize_two_pairs)

section \<open>The \<open>isUnknown\<close> predicate\<close>

text \<open>
  C7 as stated: for every string, the empty one included, \<open>isUnknown\<close> is true exactly
  when none of the five conditions holds. For the empty string none of them holds, yet the
  guard \<open>if (!word) return false\<close> answers false.
\<close>

theorem isUnknown_empty_not_unknown:
  "\<not> (isUnknown sample_segmenter [] = (\<not> known_by_spec sample_segmenter []))"
  by (simp add: isUnknown_def known_by_spec_def sample_segmenter_def isSeparator_def)

text \<open>
  C7, amended: for every string, \<open>isUnknown\<close> is true exactly when the string is not
  empty and none of the five conditions holds: it is not in the dictionary, does not start
  with a digit, is not a single separator, is not a single valid base, and does not both
  contain a full stop and have length at least 2.
\<close>

theorem isUnknown_iff_not_known:
  "isUnknown s w = (w \<noteq> [] \<and> \<not> known_by_spec s w)"
  by (cases w) (auto simp: isUnknown_def known_by_spec_def)

theorem isUnknown_iff_not_known_witness:
  "isUnknown sample_segmenter [0x61] \<and> \<not> known_by_spec sample_segmenter [0x61]
   \<and> \<not> isUnknown sample_segmenter []"
  using isUnknown_iff_not_known [of sample_segmenter "[0x61]"]
    isUnknown_iff_not_known [of sample_segmenter "[]"]
  by (simp add: known_by_spec_def sample_segmenter_def isSeparator_def isDigit_def
      isValidSingleBaseChar_def ascii_sep_def)

section \<open>Rule compilation\<close>

lemma compile_loop_acc:
  "x \<in> set acc \<Longrightarrow> x \<in> set (compile_loop mk rs acc)"
  by (induction rs arbitrary: acc) (simp_all split: option.splits)

lemma compile_loop_keeps:
  "r \<in> set rs \<Longrightarrow> t_type (trigger r) \<noteq> ''regex'' \<Longrightarrow> r \<in> set (compile_loop mk rs acc)"
proof (induction rs arbitrary: acc)
  case Nil
  then show ?case by simp
next
  case (Cons a rs)
  show ?case
  proof (cases "r = a")
    case True
    with Cons.prems show ?thesis by (simp add: compile_loop_acc)
  next
    case False
    with Cons show ?thesis by (simp split: option.splits)
  qed
qed

text \<open>
  C8 as stated: the compiled list holds no rule with a trigger type outside
  \<open>exact_match\<close>, \<open>regex\<close>, \<open>complexity_check\<close>. Compiling the single rule
  \<open>unknown_type_rule\<close> returns it.
\<close>

theorem compileRules_keeps_unknown_type:
  "map (t_type \<circ> trigger) (compileRules Map.empty [unknown_type_rule]) = [''fuzzy_match'']"
  by (simp add: compileRules_def unknown_type_rule_def)

text \<open>
  C8, amended: a rule whose trigger type is none of the three is not dropped by
  \<open>_compileRules\<close>; it stays in the compiled list, and in \<open>applyRules\<close> its trigger
  matches no segment.
\<close>

theorem unknown_trigger_kept_never_matches:
  assumes "t_type (trigger r) \<notin> {''exact_match'', ''regex'', ''complexity_check''}"
    and "r \<in> set rs"
  shows "r \<in> set (compileRules mk rs) \<and> \<not> trigger_match s (trigger r) seg"
proof -
  have "r \<in> set (sort_key (\<lambda>r. - prio r) rs)" using assms by simp
  with assms have "r \<in> set (compile_loop mk (sort_key (\<lambda>r. - prio r) rs) [])"
    by (simp add: compile_loop_keeps)
  moreover have "\<not> trigger_match s (trigger r) seg"
    using assms by (simp add: trigger_match_def)
  ultimately show ?thesis by (simp add: compileRules_def)
qed

theorem unknown_trigger_kept_never_matches_witness:
  "unknown_type_rule \<in> set (compileRules Map.empty [unknown_type_rule])
   \<and> \<not> trigger_match sample_segmenter (trigger unknown_type_rule) [0x61]"
  using unknown_trigger_kept_never_matches
    [of unknown_type_rule "[unknown_type_rule]" Map.empty sample_segmenter "[0x61]"]
  by (simp add: unknown_type_rule_def)

section \<open>The rule engine's rewriting loop\<close>

text \<open>
  A merge replaces two neighbours by their concatenation; every applied rule lowers
  \<open>2 * length segments - i\<close>, and so does the step \<open>i++\<close> when no rule applies.
\<close>

lemma merge_concat:
  assumes "i + 1 < length xs"
  shows "concat (take i xs @ [xs ! i @ xs ! (i + 1)] @ drop (i + 2) xs) = concat xs"
proof -
  have "xs = take i xs @ xs ! i # xs ! (i + 1) # drop (i + 2) xs"
    using assms by (simp add: Cons_nth_drop_Suc)
  then have "concat xs = concat (take i xs @ xs ! i # xs ! (i + 1) # drop (i + 2) xs)"
    by simp
  then show ?thesis by simp
qed

lemma merge_nonempty:
  assumes "i + 1 < length xs" and "[] \<notin> set xs"
  shows "[] \<notin> set (take i xs @ [xs ! i @ xs ! (i + 1)] @ drop (i + 2) xs)"
proof -
  have "xs ! i \<in> set xs" using assms by simp
  with assms have "xs ! i \<noteq> []" by metis
  moreover have "[] \<notin> set (take i xs)" using assms by (meson in_set_takeD)
  moreover have "[] \<notin> set (drop (i + 2) xs)" using assms by (meson in_set_dropD)
  ultimately show ?thesis by simp
qed

lemma try_rules_cases:
  assumes "try_rules s rs i segs = Some (i', segs')" and "i < length segs"
  shows "(i' = i \<and> i + 1 < length segs
            \<and> segs' = take i segs @ [segs ! i @ segs ! (i + 1)] @ drop (i + 2) segs)
         \<or> (i' = i - 1 \<and> i > 0
            \<and> segs' = take (i - 1) segs @ [segs ! (i - 1) @ segs ! i] @ drop (i + 1) segs)
         \<or> (i' = i + 1 \<and> segs' = segs)"
  using assms
proof (induction rs)
  case Nil
  then show ?case by simp
next
  case (Cons r rs)
  then show ?case
    by (auto split: if_splits simp: take_Suc_conv_app_nth upd_conv_take_nth_drop)
qed

lemma try_rules_step:
  assumes "try_rules s rs i segs = Some (i', segs')" and "i < length segs"
  shows "2 * length segs' - i' < 2 * length segs - i"
    and "concat segs' = concat segs"
    and "[] \<notin> set segs \<Longrightarrow> [] \<notin> set segs'"
proof -
  consider
    (mnext) "i' = i" "i + 1 < length segs"
      "segs' = take i segs @ [segs ! i @ segs ! (i + 1)] @ drop (i + 2) segs"
  | (prev) "i' = i - 1" "i > 0"
      "segs' = take (i - 1) segs @ [segs ! (i - 1) @ segs ! i] @ drop (i + 1) segs"
  | (keep) "i' = i + 1" "segs' = segs"
    using try_rules_cases [OF assms] by blast
  then have "2 * length segs' - i' < 2 * length segs - i
      \<and> concat segs' = concat segs \<and> ([] \<notin> set segs \<longrightarrow> [] \<notin> set segs')"
  proof cases
    case mnext
    then show ?thesis using merge_concat [of i segs] merge_nonempty [of i segs] by auto
  next
    case prev
    then have b: "(i - 1) + 1 < length segs" and e: "i - 1 + 1 = i" "i - 1 + 2 = i + 1"
      using assms(2) by auto
    show ?thesis
      using prev assms(2) merge_concat [OF b] merge_nonempty [OF b] unfolding e by auto
  next
    case keep
    then show ?thesis using assms(2) by auto
  qed
  then show "2 * length segs' - i' < 2 * length segs - i"
    and "concat segs' = concat segs"
    and "[] \<notin> set segs \<Longrightarrow> [] \<notin> set segs'" by auto
qed

lemma applyRules_loop_returns:
  "\<exists>r. applyRules_loop s i segs = Some r \<and> concat r = concat segs
       \<and> ([] \<notin> set segs \<longrightarrow> [] \<notin> set r)"
proof (induction "2 * length segs - i" arbitrary: i segs rule: less_induct)
  case less
  show ?case
  proof (cases "i < length segs")
    case False
    then show ?thesis by (subst applyRules_loop.simps) simp
  next
    case True
    show ?thesis
    proof (cases "try_rules s (rules s) i segs")
      case None
      have "2 * length segs - (i + 1) < 2 * length segs - i" using True by arith
      from less [OF this] obtain r where
        "applyRules_loop s (i + 1) segs = Some r" "concat r = concat segs"
        "[] \<notin> set segs \<longrightarrow> [] \<notin> set r" by blast
      then show ?thesis using True None by (subst applyRules_loop.simps) simp
    next
      case (Some p)
      obtain i' segs' where p: "p = (i', segs')" by (cases p)
      have t: "try_rules s (rules s) i segs = Some (i', segs')" using Some p by simp
      from less [OF try_rules_step(1) [OF t True]] obtain r where
        "applyRules_loop s i' segs' = Some r" "concat r = concat segs'"
        "[] \<notin> set segs' \<longrightarrow> [] \<notin> set r" by blast
      then show ?thesis
        using True t try_rules_step(2,3) [OF t True] by (subst applyRules_loop.simps) auto
    qed
  qed
qed

text \<open>
  C9. \<open>applyRules\<close> returns on every token list and every rule set: the loop is not
  allowed to run forever in the model, and it is shown to return a list.
\<close>

theorem applyRules_terminates:
  "\<exists>r. applyRules s segments = Some r"
  using applyRules_loop_returns [of s 0 segments] unfolding applyRules_def by blast

section \<open>The unknown grouper\<close>

lemma group_loop_props:
  assumes "[] \<notin> set segs" and "[] \<notin> set fin" and "[] \<notin> set buf"
  shows "\<exists>fin' buf'. group_loop s segs fin buf = Inr (fin', buf')
           \<and> concat fin' @ concat buf' = concat fin @ concat buf @ concat segs
           \<and> [] \<notin> set fin' \<and> [] \<notin> set buf'"
  using assms
proof (induction segs arbitrary: fin buf)
  case Nil
  then show ?case by simp
next
  case (Cons seg rest)
  have ne: "seg \<noteq> []" and r: "[] \<notin> set rest" using Cons.prems(1) by auto
  have cb: "buf \<noteq> [] \<Longrightarrow> concat buf \<noteq> []" using Cons.prems(3) by (cases buf) auto
  consider (a) "isKnown s seg" "buf \<noteq> []" | (b) "isKnown s seg" "buf = []"
    | (c) "\<not> isKnown s seg" "buf \<noteq> []"
          "isKhmerChar (take 1 (last buf)) \<noteq> isKhmerChar (take 1 seg)"
    | (d) "\<not> isKnown s seg"
          "\<not> (buf \<noteq> [] \<and> isKhmerChar (take 1 (last buf)) \<noteq> isKhmerChar (take 1 seg))"
    by blast
  then show ?case
  proof cases
    case a
    have "[] \<notin> set (fin @ [concat buf, seg])" using Cons.prems(2) ne cb a by auto
    from Cons.IH [OF r this, of "[]"] show ?thesis using a ne by auto
  next
    case b
    have "[] \<notin> set (fin @ [seg])" using Cons.prems(2) ne by auto
    from Cons.IH [OF r this, of "[]"] show ?thesis using b ne by auto
  next
    case c
    have "[] \<notin> set (fin @ [concat buf])" "[] \<notin> set [seg]"
      using Cons.prems(2) ne cb c by auto
    from Cons.IH [OF r this] show ?thesis using c ne by auto
  next
    case d
    have "[] \<notin> set (buf @ [seg])" using Cons.prems(3) ne by auto
    from Cons.IH [OF r Cons.prems(2) this] show ?thesis using d ne by auto
  qed
qed

lemma group_unknowns_props:
  assumes "[] \<notin> set segs"
  shows "\<exists>toks. group_unknowns s segs = Inr toks \<and> concat toks = concat segs \<and> [] \<notin> set toks"
proof -
  from group_loop_props [OF assms, of "[]" "[]" s] obtain fin' buf' where
    g: "group_loop s segs [] [] = Inr (fin', buf')"
    and c: "concat fin' @ concat buf' = concat segs"
    and n: "[] \<notin> set fin'" "[] \<notin> set buf'" by auto
  have "buf' \<noteq> [] \<Longrightarrow> concat buf' \<noteq> []" using n(2) by (cases buf') auto
  then show ?thesis using g c n by (auto simp: group_unknowns_def)
qed

section \<open>The DP loop and the backtrack\<close>

declare cluster_scan.simps [simp del] number_scan.simps [simp del] acronym_scan.simps [simp del]

lemma cluster_scan_bounds:
  "i \<le> cluster_scan tx i \<and> (i \<le> length tx \<longrightarrow> cluster_scan tx i \<le> length tx)"
proof (induction tx i rule: cluster_scan.induct)
  case (1 tx i)
  then show ?case by (subst (1 2) cluster_scan.simps) auto
qed

lemma number_scan_bounds:
  "i \<le> number_scan tx i \<and> (i \<le> length tx \<longrightarrow> number_scan tx i \<le> length tx)"
proof (induction tx i rule: number_scan.induct)
  case (1 tx i)
  then show ?case by (subst (1 2) number_scan.simps) auto
qed

lemma getKhmerClusterLength_bounds:
  assumes "i < length tx"
  shows "1 \<le> getKhmerClusterLength tx i" and "i + getKhmerClusterLength tx i \<le> length tx"
  using assms cluster_scan_bounds [of "i + 1" tx]
  by (auto simp: getKhmerClusterLength_def)

lemma getNumberLength_bounds:
  assumes "i < length tx" and "isDigit (tx ! i)"
  shows "1 \<le> getNumberLength tx i" and "i + getNumberLength tx i \<le> length tx"
  using assms number_scan_bounds [of "i + 1" tx]
  by (auto simp: getNumberLength_def)

lemma acronym_scan_bounds:
  "i \<le> acronym_scan tx i \<and> (i \<le> length tx \<longrightarrow> acronym_scan tx i \<le> length tx)"
proof (induction tx i rule: acronym_scan.induct)
  case (1 tx i)
  then show ?case by (subst (1 2) acronym_scan.simps) auto
qed

lemma getAcronymLength_bounds:
  assumes "isAcronymStart tx i"
  shows "1 \<le> getAcronymLength tx i" and "i + getAcronymLength tx i \<le> length tx"
proof -
  let ?cl = "getKhmerClusterLength tx i"
  from assms have a: "i + 1 < length tx" "0x1780 \<le> tx ! i \<and> tx ! i \<le> 0x17B3"
    "?cl \<noteq> 0" "i + ?cl < length tx" "tx ! (i + ?cl) = 0x2E"
    by (auto simp: isAcronymStart_def split: if_splits)
  then have "acronym_scan tx i = acronym_scan tx (i + ?cl + 1)"
    by (subst acronym_scan.simps) simp
  moreover have "i + ?cl + 1 \<le> acronym_scan tx (i + ?cl + 1)"
    "acronym_scan tx (i + ?cl + 1) \<le> length tx"
    using acronym_scan_bounds [of "i + ?cl + 1" tx] a by auto
  ultimately show "1 \<le> getAcronymLength tx i" and "i + getAcronymLength tx i \<le> length tx"
    by (auto simp: getAcronymLength_def)
qed

lemma proposals_bounds:
  assumes "i < length tx" and "(j, d, g) \<in> set (proposals s tx i)"
  shows "i < j \<and> j \<le> length tx"
  using assms getKhmerClusterLength_bounds [OF assms(1)] getNumberLength_bounds [OF assms(1)]
    getAcronymLength_bounds [of tx i]
  by (auto simp: proposals_def dict_matches_def split: if_splits)

lemma proposals_nonempty: "proposals s tx i \<noteq> []"
  by (simp add: proposals_def)


lemma fin_le_iff: "fin_le dp k x \<longleftrightarrow> (\<exists>c. fst (dp ! k) = Fin c \<and> c \<le> x)"
  by (auto simp: fin_le_def split: cost.splits)

lemma not_cost_less: "\<not> cost_less x c \<Longrightarrow> \<exists>y. c = Fin y \<and> y \<le> x"
  by (cases c) auto

lemma relax_inv:
  assumes t: "tree_ok s tx (Suc i) dp" and i: "i < length tx" and ci: "fst (dp ! i) = Fin ci"
    and e: "(j, d, g) \<in> set (proposals s tx i)"
  shows "\<exists>dp'. relax (length tx) i dp (j, d, g) = Inr dp' \<and> tree_ok s tx (Suc i) dp'
           \<and> fin_le dp' j (ci + d) \<and> (\<forall>p \<le> i. dp' ! p = dp ! p)
           \<and> (\<forall>k x. fin_le dp k x \<longrightarrow> fin_le dp' k x)"
proof -
  from proposals_bounds [OF i e] have j: "i < j" "j \<le> length tx" by auto
  from t have len: "length dp = Suc (length tx)" by (simp add: tree_ok_def)
  show ?thesis
  proof (cases "cost_less (ci + d) (fst (dp ! j))")
    case False
    then have r: "relax (length tx) i dp (j, d, g) = Inr dp"
      using j len ci by (simp add: relax_def)
    from not_cost_less [OF False] have "fin_le dp j (ci + d)" by (auto simp: fin_le_iff)
    with r t show ?thesis by auto
  next
    case True
    let ?dp = "dp[j := (Fin (ci + d), Some i)]"
    have r: "relax (length tx) i dp (j, d, g) = Inr ?dp"
      using j len ci True by (simp add: relax_def)
    have same: "\<And>p. p \<noteq> j \<Longrightarrow> ?dp ! p = dp ! p" by simp
    have atj: "?dp ! j = (Fin (ci + d), Some i)" using j len by simp
    have low: "\<forall>p \<le> i. ?dp ! p = dp ! p" using j by simp
    have "tree_ok s tx (Suc i) ?dp"
      unfolding tree_ok_def
    proof (intro conjI allI impI)
      show "length ?dp = Suc (length tx)" using len by simp
      show "?dp ! 0 = (Fin 0, None)" using t j by (simp add: tree_ok_def)
      fix k assume k: "0 < k \<and> k \<le> length tx"
      show "?dp ! k = (Infinity, None)
            \<or> (\<exists>p cp d g. ?dp ! k = (Fin (cp + d), Some p) \<and> p < k \<and> p < Suc i
                  \<and> fst (?dp ! p) = Fin cp \<and> (k, d, g) \<in> set (proposals s tx p))"
      proof (cases "k = j")
        case True
        have "?dp ! k = (Fin (ci + d), Some i) \<and> i < k \<and> i < Suc i
                  \<and> fst (?dp ! i) = Fin ci \<and> (k, d, g) \<in> set (proposals s tx i)"
          using True atj j ci e by simp
        then show ?thesis by blast
      next
        case False
        from t k have "dp ! k = (Infinity, None)
            \<or> (\<exists>p cp d g. dp ! k = (Fin (cp + d), Some p) \<and> p < k \<and> p < Suc i
                  \<and> fst (dp ! p) = Fin cp \<and> (k, d, g) \<in> set (proposals s tx p))"
          by (simp add: tree_ok_def)
        then show ?thesis
        proof
          assume "dp ! k = (Infinity, None)"
          then show ?thesis using False by simp
        next
          assume "\<exists>p cp d g. dp ! k = (Fin (cp + d), Some p) \<and> p < k \<and> p < Suc i
                  \<and> fst (dp ! p) = Fin cp \<and> (k, d, g) \<in> set (proposals s tx p)"
          then obtain p cp d' g' where h: "dp ! k = (Fin (cp + d'), Some p)" "p < k" "p < Suc i"
            "fst (dp ! p) = Fin cp" "(k, d', g') \<in> set (proposals s tx p)" by blast
          have "?dp ! k = (Fin (cp + d'), Some p) \<and> p < k \<and> p < Suc i
                  \<and> fst (?dp ! p) = Fin cp \<and> (k, d', g') \<in> set (proposals s tx p)"
            using h False j by simp
          then show ?thesis by blast
        qed
      qed
    qed
    moreover have "fin_le ?dp j (ci + d)" using atj by (simp add: fin_le_iff)
    moreover have "\<forall>k x. fin_le dp k x \<longrightarrow> fin_le ?dp k x"
    proof (intro allI impI)
      fix k x assume f: "fin_le dp k x"
      show "fin_le ?dp k x"
      proof (cases "k = j")
        case True
        from f obtain c where "fst (dp ! j) = Fin c" "c \<le> x" using True by (auto simp: fin_le_iff)
        with \<open>cost_less (ci + d) (fst (dp ! j))\<close> have "ci + d \<le> x" by simp
        then show ?thesis using True atj by (simp add: fin_le_iff)
      next
        case False
        then show ?thesis using f by (simp add: fin_le_iff)
      qed
    qed
    ultimately show ?thesis using r low by blast
  qed
qed

lemma relax_all_inv:
  assumes "tree_ok s tx (Suc i) dp" and "i < length tx" and "fst (dp ! i) = Fin ci"
    and "set ps \<subseteq> set (proposals s tx i)"
  shows "\<exists>dp'. relax_all (length tx) i dp ps = Inr dp' \<and> tree_ok s tx (Suc i) dp'
           \<and> (\<forall>(j, d, g) \<in> set ps. fin_le dp' j (ci + d)) \<and> (\<forall>p \<le> i. dp' ! p = dp ! p)
           \<and> (\<forall>k x. fin_le dp k x \<longrightarrow> fin_le dp' k x)"
  using assms
proof (induction ps arbitrary: dp)
  case Nil
  then show ?case by simp
next
  case (Cons q ps)
  obtain j d g where q: "q = (j, d, g)" by (cases q)
  have e: "(j, d, g) \<in> set (proposals s tx i)" using Cons.prems(4) q by simp
  from relax_inv [OF Cons.prems(1,2,3) e] obtain dp1 where
    r: "relax (length tx) i dp (j, d, g) = Inr dp1" and t1: "tree_ok s tx (Suc i) dp1"
    and f1: "fin_le dp1 j (ci + d)" and l1: "\<forall>p \<le> i. dp1 ! p = dp ! p"
    and m1: "\<forall>k x. fin_le dp k x \<longrightarrow> fin_le dp1 k x" by blast
  have c1: "fst (dp1 ! i) = Fin ci" using l1 Cons.prems(3) by simp
  have sub: "set ps \<subseteq> set (proposals s tx i)" using Cons.prems(4) by simp
  from Cons.IH [OF t1 Cons.prems(2) c1 sub] obtain dp2 where
    r2: "relax_all (length tx) i dp1 ps = Inr dp2" and t2: "tree_ok s tx (Suc i) dp2"
    and f2: "\<forall>(j, d, g) \<in> set ps. fin_le dp2 j (ci + d)" and l2: "\<forall>p \<le> i. dp2 ! p = dp1 ! p"
    and m2: "\<forall>k x. fin_le dp1 k x \<longrightarrow> fin_le dp2 k x" by blast
  have "relax_all (length tx) i dp (q # ps) = Inr dp2" using r r2 q by simp
  moreover have "\<forall>(j, d, g) \<in> set (q # ps). fin_le dp2 j (ci + d)" using f1 f2 m2 q by auto
  moreover have "\<forall>p \<le> i. dp2 ! p = dp ! p" using l1 l2 by simp
  moreover have "\<forall>k x. fin_le dp k x \<longrightarrow> fin_le dp2 k x" using m1 m2 by blast
  ultimately show ?case using t2 by blast
qed

lemma tree_ok_mono: "tree_ok s tx i dp \<Longrightarrow> tree_ok s tx (Suc i) dp"
  unfolding tree_ok_def by (meson less_Suc_eq)

lemma dp_step_inv:
  assumes t: "tree_ok s tx i dp" and b: "bellman s tx i dp" and i: "i < length tx"
  shows "\<exists>dp'. dp_step s tx i dp = Inr dp' \<and> tree_ok s tx (Suc i) dp' \<and> bellman s tx (Suc i) dp'"
proof (cases "fst (dp ! i)")
  case Infinity
  then have "dp_step s tx i dp = Inr dp" by (simp add: dp_step_def)
  moreover have "bellman s tx (Suc i) dp"
    using b Infinity unfolding bellman_def by (metis cost.distinct(1) less_Suc_eq)
  ultimately show ?thesis using tree_ok_mono [OF t] by blast
next
  case (Fin ci)
  from relax_all_inv [OF tree_ok_mono [OF t] i Fin subset_refl] obtain dp' where
    r: "relax_all (length tx) i dp (proposals s tx i) = Inr dp'" and t': "tree_ok s tx (Suc i) dp'"
    and f: "\<forall>(j, d, g) \<in> set (proposals s tx i). fin_le dp' j (ci + d)"
    and l: "\<forall>p \<le> i. dp' ! p = dp ! p"
    and m: "\<forall>k x. fin_le dp k x \<longrightarrow> fin_le dp' k x" by blast
  have "dp_step s tx i dp = Inr dp'" using r Fin by (simp add: dp_step_def)
  moreover have "bellman s tx (Suc i) dp'"
    unfolding bellman_def
  proof (intro allI impI)
    fix p k d g cp
    assume h: "p < Suc i \<and> fst (dp' ! p) = Fin cp \<and> (k, d, g) \<in> set (proposals s tx p)"
    show "fin_le dp' k (cp + d)"
    proof (cases "p = i")
      case True
      then have "cp = ci" using h l Fin by simp
      then show ?thesis using f h True by auto
    next
      case False
      then have "p < i" "fst (dp ! p) = Fin cp" using h l by auto
      then have "fin_le dp k (cp + d)" using b h unfolding bellman_def by blast
      then show ?thesis using m by blast
    qed
  qed
  ultimately show ?thesis using t' by blast
qed

lemma dp_loop_inv:
  assumes "tree_ok s tx i dp" and "bellman s tx i dp" and "i \<le> length tx"
  shows "\<exists>dp'. dp_loop s tx [i ..< length tx] dp = Inr dp' \<and> tree_ok s tx (length tx) dp'
           \<and> bellman s tx (length tx) dp'"
  using assms
proof (induction "length tx - i" arbitrary: i dp)
  case 0
  then show ?case by simp
next
  case (Suc m)
  then have i: "i < length tx" by simp
  from dp_step_inv [OF Suc.prems(1,2) i] obtain dp1 where
    st: "dp_step s tx i dp = Inr dp1" and t1: "tree_ok s tx (Suc i) dp1"
    and b1: "bellman s tx (Suc i) dp1" by blast
  have "m = length tx - Suc i" using Suc.hyps(2) by simp
  from Suc.hyps(1) [OF this t1 b1] i obtain dp2 where
    "dp_loop s tx [Suc i ..< length tx] dp1 = Inr dp2" "tree_ok s tx (length tx) dp2"
    "bellman s tx (length tx) dp2" by auto
  then show ?case using st i by (simp add: upt_conv_Cons)
qed

lemma run_dp_inv:
  "\<exists>dp. run_dp s tx = Inr dp \<and> tree_ok s tx (length tx) dp \<and> bellman s tx (length tx) dp"
proof -
  have "tree_ok s tx 0 (init_dp (length tx))"
    by (auto simp: tree_ok_def init_dp_def nth_Cons')
  moreover have "bellman s tx 0 (init_dp (length tx))" by (simp add: bellman_def)
  ultimately show ?thesis using dp_loop_inv [of s tx 0] by (simp add: run_dp_def)
qed


lemma reach_end:
  assumes b: "bellman s tx (length tx) dp"
  shows "p \<le> length tx \<Longrightarrow> fst (dp ! p) = Fin c \<Longrightarrow> \<exists>c'. fst (dp ! length tx) = Fin c'"
proof (induction "length tx - p" arbitrary: p c rule: less_induct)
  case less
  show ?case
  proof (cases "p = length tx")
    case True
    then show ?thesis using less.prems by blast
  next
    case False
    then have p: "p < length tx" using less.prems by simp
    obtain j d g where e: "(j, d, g) \<in> set (proposals s tx p)"
      using proposals_nonempty [of s tx p] by (cases "proposals s tx p") auto
    from proposals_bounds [OF p e] have j: "p < j" "j \<le> length tx" by auto
    from b p less.prems(2) e have "fin_le dp j (c + d)" unfolding bellman_def by blast
    then obtain cj where "fst (dp ! j) = Fin cj" by (auto simp: fin_le_iff)
    moreover have "length tx - j < length tx - p" using j p by arith
    ultimately show ?thesis using less.hyps j by blast
  qed
qed

lemma backtrack_chain:
  assumes t: "tree_ok s tx (length tx) dp"
  shows "k \<le> length tx \<Longrightarrow> fst (dp ! k) = Fin c \<Longrightarrow>
           \<exists>toks. cover s tx k toks c
             \<and> (\<forall>acc. backtrack dp tx k acc = Some (Inr (acc @ rev toks)))"
proof (induction k arbitrary: c rule: less_induct)
  case (less k)
  show ?case
  proof (cases "k = 0")
    case True
    have "c = 0" using t True less.prems by (simp add: tree_ok_def)
    moreover have "\<forall>acc. backtrack dp tx 0 acc = Some (Inr (acc @ rev []))"
      by (subst backtrack.simps) simp
    ultimately show ?thesis using True cover_start by blast
  next
    case False
    then have k: "0 < k \<and> k \<le> length tx" using less.prems by simp
    with t have "dp ! k = (Infinity, None)
            \<or> (\<exists>p cp d g. dp ! k = (Fin (cp + d), Some p) \<and> p < k \<and> p < length tx
                  \<and> fst (dp ! p) = Fin cp \<and> (k, d, g) \<in> set (proposals s tx p))"
      unfolding tree_ok_def by blast
    with less.prems(2) obtain p cp d g where h: "dp ! k = (Fin (cp + d), Some p)" "p < k"
      "p < length tx" "fst (dp ! p) = Fin cp" "(k, d, g) \<in> set (proposals s tx p)"
      by auto
    have c: "c = cp + d" using h(1) less.prems(2) by simp
    from less.IH [OF h(2) _ h(4)] h(3) obtain toks where
      cv: "cover s tx p toks cp"
      and bt: "\<forall>acc. backtrack dp tx p acc = Some (Inr (acc @ rev toks))" by auto
    have len: "length dp = Suc (length tx)" using t by (simp add: tree_ok_def)
    have "cover s tx k (toks @ [slice tx p k]) c"
      using cover_step [OF cv h(3) h(5)] c by simp
    moreover have "\<forall>acc. backtrack dp tx k acc
                     = Some (Inr (acc @ rev (toks @ [slice tx p k])))"
    proof
      fix acc
      have "backtrack dp tx k acc = backtrack dp tx p (acc @ [slice tx p k])"
        using k len h(1) by (subst backtrack.simps) simp
      then show "backtrack dp tx k acc = Some (Inr (acc @ rev (toks @ [slice tx p k])))"
        using bt by simp
    qed
    ultimately show ?thesis by blast
  qed
qed

lemma cover_lower_bound:
  assumes t: "tree_ok s tx (length tx) dp" and b: "bellman s tx (length tx) dp"
  shows "cover s tx k toks c \<Longrightarrow> fin_le dp k c"
proof (induction rule: cover.induct)
  case cover_start
  then show ?case using t by (simp add: tree_ok_def fin_le_iff)
next
  case (cover_step i toks c j d g)
  from cover_step.IH obtain ci where ci: "fst (dp ! i) = Fin ci" "ci \<le> c"
    by (auto simp: fin_le_iff)
  from b cover_step.hyps(2,3) ci(1) have "fin_le dp j (ci + d)" unfolding bellman_def by blast
  then show ?case using ci(2) by (auto simp: fin_le_iff)
qed

lemma slice_nonempty: "i < j \<Longrightarrow> j \<le> length tx \<Longrightarrow> slice tx i j \<noteq> []"
  by (simp add: slice_def)

lemma take_slice: "i \<le> j \<Longrightarrow> take i tx @ slice tx i j = take j tx"
  using take_add [of i "j - i" tx] by (simp add: slice_def)

lemma cover_tiles:
  "cover s tx k toks c \<Longrightarrow> k \<le> length tx \<and> concat toks = take k tx \<and> [] \<notin> set toks"
proof (induction rule: cover.induct)
  case cover_start
  then show ?case by simp
next
  case (cover_step i toks c j d g)
  from proposals_bounds [OF cover_step.hyps(2,3)] have j: "i < j" "j \<le> length tx" by auto
  have "slice tx i j \<noteq> []" using slice_nonempty [OF j] .
  moreover have "take i tx @ slice tx i j = take j tx" using take_slice [of i j tx] j by simp
  ultimately show ?case using cover_step.IH j by auto
qed

lemma raw_segments:
  assumes ne: "tx \<noteq> []"
  shows "\<exists>dp c toks. run_dp s tx = Inr dp \<and> fst (dp ! length tx) = Fin c
           \<and> backtrack dp tx (length tx) [] = Some (Inr (rev toks))
           \<and> cover s tx (length tx) toks c
           \<and> (\<forall>toks' c'. cover s tx (length tx) toks' c' \<longrightarrow> c \<le> c')"
proof -
  from run_dp_inv obtain dp where r: "run_dp s tx = Inr dp"
    and t: "tree_ok s tx (length tx) dp" and b: "bellman s tx (length tx) dp" by blast
  have "fst (dp ! 0) = Fin 0" using t by (simp add: tree_ok_def)
  from reach_end [OF b _ this] obtain c where c: "fst (dp ! length tx) = Fin c" by auto
  from backtrack_chain [OF t _ c] obtain toks where cv: "cover s tx (length tx) toks c"
    and bt: "backtrack dp tx (length tx) [] = Some (Inr (rev toks))" by auto
  have "\<forall>toks' c'. cover s tx (length tx) toks' c' \<longrightarrow> c \<le> c'"
    using cover_lower_bound [OF t b] c by (fastforce simp: fin_le_iff)
  then show ?thesis using r c cv bt by blast
qed


lemma segment_props:
  "\<exists>toks. segment s x d = Some (Inr toks) \<and> concat toks = normalize_khmer x \<and> [] \<notin> set toks"
proof (cases "normalize_khmer x = []")
  case True
  then show ?thesis by (simp add: segment_def)
next
  case False
  let ?t = "normalize_khmer x"
  from raw_segments [OF False, of s] obtain dp c toks where
    r: "run_dp s ?t = Inr dp"
    and bt: "backtrack dp ?t (length ?t) [] = Some (Inr (rev toks))"
    and cv: "cover s ?t (length ?t) toks c" by blast
  from cover_tiles [OF cv] have ct: "concat toks = ?t" "[] \<notin> set toks" by auto
  show ?thesis
  proof (cases d)
    case True
    then have "segment s x d = Some (Inr toks)" using False r bt by (simp add: segment_def Let_def)
    then show ?thesis using ct by simp
  next
    case nd: False
    from applyRules_loop_returns [of s 0 toks] obtain p2 where
      a: "applyRules s toks = Some p2" "concat p2 = concat toks" "[] \<notin> set p2"
      using ct(2) by (auto simp: applyRules_def)
    from group_unknowns_props [OF a(3), of s] obtain fin where
      g: "group_unknowns s p2 = Inr fin" "concat fin = concat p2" "[] \<notin> set fin" by blast
    have "segment s x d = Some (Inr fin)"
      using False r bt nd a(1) g(1) by (simp add: segment_def Let_def)
    then show ?thesis using g a ct by simp
  qed
qed


section \<open>Properties of \<open>segment\<close>\<close>





text \<open>
  C1. For every input \<open>x\<close>, \<open>segment(x)\<close> with post-processing enabled returns a token
  list, and the concatenation of the tokens in order is \<open>normalize(x)\<close>.
\<close>

theorem segment_concat_is_normalized:
  "\<exists>toks. segment s x False = Some (Inr toks) \<and> concat toks = normalize_khmer x"
  using segment_props [of s x False] by blast

text \<open>
  C10. For every input and both settings of \<open>disablePostProcessing\<close>, \<open>segment\<close> returns
  a token list and no token in it is the empty string. The grouper's read of \<open>seg[0]\<close> is
  a TypeError in the model on an empty segment, so returning a list includes that the read
  is in bounds.
\<close>

theorem segment_tokens_nonempty:
  "\<exists>toks. segment s x d = Some (Inr toks) \<and> [] \<notin> set toks"
  using segment_props [of s x d] by blast





section \<open>Frequencies and costs\<close>














end
